theory Spec2Isabelle
  imports Main "HOL-Library.Word" "HOL-Library.Sublist"
begin

unbundle bit_operations_syntax

section \<open>Errors\<close>

text \<open>
  The evaluation script \<^verbatim>\<open>evaluate.py\<close> raises one exception itself
  (\<^verbatim>\<open>raise NotImplementedError\<close>, line 83); every other failure comes out of a
  Python built-in or a library call. Each of them is a value of the result type
  \<open>error + 'a\<close>, with \<open>Inl\<close> for the exception.
\<close>

datatype error =
    NotImplementedError
  | AttributeError
  | TypeError
  | IndexError
  | KeyError
  | RuntimeError
  | FileExistsError
  | NotADirectoryError

section \<open>Label packing (lines 145--148)\<close>

text \<open>
  \<^verbatim>\<open>
  sem = outputs.cpu().numpy().astype(np.uint32)
  ins = np.zeros_like(sem).astype(np.uint32)
  pred_eval = sem + (ins << 16)
  pred_eval.astype(np.uint32).tofile(output_file_name)
  \<close>
  \<open>outputs\<close> holds one class index per point, the result of \<open>argmax\<close>: a
  non-negative 64-bit integer, here a \<open>nat\<close>. \<open>astype(np.uint32)\<close> keeps the low
  32 bits, which is what \<open>of_nat\<close> into \<open>32 word\<close> does. The arithmetic of the third
  line is element-wise on \<open>uint32\<close> arrays: \<open>+\<close> wraps and \<open><<\<close> drops the bits
  shifted out, as \<open>+\<close> and \<open>push_bit\<close> on \<open>32 word\<close> do.
\<close>

type_synonym u32 = "32 word"
type_synonym byte = "8 word"

definition astype_uint32 :: "nat list \<Rightarrow> u32 list" where
  "astype_uint32 xs = map of_nat xs"

definition zeros_like :: "u32 list \<Rightarrow> u32 list" where
  "zeros_like xs = map (\<lambda>_. 0) xs"

text \<open>One element of \<^verbatim>\<open>sem + (ins << 16)\<close>.\<close>

definition encode :: "u32 \<Rightarrow> u32 \<Rightarrow> u32" where
  "encode s i = s + push_bit 16 i"

definition sem_of :: "nat list \<Rightarrow> u32 list" where
  "sem_of outputs = astype_uint32 outputs"

definition ins_of :: "nat list \<Rightarrow> u32 list" where
  "ins_of outputs = zeros_like (sem_of outputs)"

definition pred_eval :: "nat list \<Rightarrow> u32 list" where
  "pred_eval outputs = map2 encode (sem_of outputs) (ins_of outputs)"

text \<open>
  \<^verbatim>\<open>tofile\<close> writes the array's elements one after the other, four bytes each, in
  the byte order of the machine (little-endian here; the byte count does not depend on
  it).
\<close>

definition word_bytes :: "u32 \<Rightarrow> byte list" where
  "word_bytes w = [ucast w, ucast (drop_bit 8 w), ucast (drop_bit 16 w), ucast (drop_bit 24 w)]"

definition tofile_bytes :: "u32 list \<Rightarrow> byte list" where
  "tofile_bytes ws = concat (map word_bytes ws)"

text \<open>
  The label format named by the specification: the low 16 bits of a word are the semantic
  label, the high 16 bits the instance label. The script has no decoder; this one follows
  the specification's words and is what the packing is compared with.
\<close>

definition decode_spec :: "u32 \<Rightarrow> u32 \<times> u32" where
  "decode_spec w = (w AND mask 16, drop_bit 16 w)"

text \<open>The packing as the specification writes it: \<open>semantic | (instance << 16)\<close>.\<close>

definition encode_spec :: "u32 \<Rightarrow> u32 \<Rightarrow> u32" where
  "encode_spec s i = s OR push_bit 16 i"

section \<open>Python built-ins used by the script\<close>

text \<open>
  \<^verbatim>\<open>xs[i]\<close>: a negative index counts from the end, an index out of range raises
  \<open>IndexError\<close>.
\<close>

definition py_index :: "'a list \<Rightarrow> int \<Rightarrow> error + 'a" where
  "py_index xs i =
     (if 0 \<le> i \<and> i < int (length xs) then Inr (xs ! nat i)
      else if i < 0 \<and> - int (length xs) \<le> i then Inr (xs ! nat (int (length xs) + i))
      else Inl IndexError)"





text \<open>\<^verbatim>\<open>sub in s\<close> on strings: \<open>sub\<close> occurs in \<open>s\<close> as a contiguous block.\<close>

fun contains :: "string \<Rightarrow> string \<Rightarrow> bool" where
  "contains sub [] = (sub = [])"
| "contains sub (c # cs) = (prefix sub (c # cs) \<or> contains sub cs)"

text \<open>
  \<^verbatim>\<open>s.split(sep)\<close> for a separator of one character: the pieces between the
  separators, empty pieces included, so the result is never the empty list.
\<close>

fun split_sep :: "char \<Rightarrow> string \<Rightarrow> string list" where
  "split_sep sep [] = [[]]"
| "split_sep sep (c # cs) =
     (if c = sep then [] # split_sep sep cs
      else (case split_sep sep cs of
              [] \<Rightarrow> [[c]]
            | w # ws \<Rightarrow> (c # w) # ws))"

text \<open>
  \<^verbatim>\<open>s.replace(old, new)\<close>: every occurrence of \<open>old\<close>, found from the left and
  without overlap, becomes \<open>new\<close>. (With an empty \<open>old\<close> Python puts \<open>new\<close> before every
  character and at the end.)
\<close>

function replace :: "string \<Rightarrow> string \<Rightarrow> string \<Rightarrow> string" where
  "replace old new [] = (if old = [] then new else [])"
| "replace old new (c # cs) =
     (if old = [] then new @ c # replace old new cs
      else if prefix old (c # cs) then new @ replace old new (drop (length old) (c # cs))
      else c # replace old new cs)"
  by pat_completeness auto
termination
  by (relation "measure (\<lambda>(old, new, s). length s)") (auto simp: neq_Nil_conv)

text \<open>\<^verbatim>\<open>f"{i:02d}"\<close>: the decimal digits of \<open>i\<close>, padded with zeros to two places.\<close>

definition digit_char :: "nat \<Rightarrow> char" where
  "digit_char d = ''0123456789'' ! d"

fun decimal :: "nat \<Rightarrow> string" where
  "decimal n = (if n < 10 then [digit_char n] else decimal (n div 10) @ [digit_char (n mod 10)])"

declare decimal.simps [simp del]

definition format_02d :: "nat \<Rightarrow> string" where
  "format_02d i = (let s = decimal i in replicate (2 - length s) CHR ''0'' @ s)"

section \<open>Directory setup (lines 38--41)\<close>

text \<open>
  \<^verbatim>\<open>
  for i in range(11):
      directory_name = f"{i:02d}"
      if not os.path.exists(args.save_dir + "/" + directory_name):
          os.makedirs(args.save_dir + "/" + directory_name)
  \<close>
  The file system is the set of paths that are directories and the set of paths that are
  regular files. Paths are the strings the script builds and are compared as strings.
  \<^verbatim>\<open>os.path.exists\<close> holds for both kinds. \<^verbatim>\<open>os.makedirs(p)\<close> raises
  \<open>FileExistsError\<close> when \<open>p\<close> exists, cannot pass through a regular file, and otherwise
  creates \<open>p\<close> and every ancestor of \<open>p\<close> (the prefixes of \<open>p\<close> that end before a
  \<open>/\<close>).
\<close>

record file_system =
  dirs :: "string set"
  files :: "string set"

definition path_exists :: "file_system \<Rightarrow> string \<Rightarrow> bool" where
  "path_exists fs p = (p \<in> dirs fs \<or> p \<in> files fs)"

fun ancestors_from :: "string \<Rightarrow> string \<Rightarrow> string list" where
  "ancestors_from pre [] = []"
| "ancestors_from pre (c # cs) =
     (if c = CHR ''/'' \<and> pre \<noteq> [] then pre # ancestors_from (pre @ [c]) cs
      else ancestors_from (pre @ [c]) cs)"

definition ancestors :: "string \<Rightarrow> string list" where
  "ancestors p = ancestors_from [] p"

definition makedirs :: "string \<Rightarrow> file_system \<Rightarrow> error + file_system" where
  "makedirs p fs =
     (if path_exists fs p then Inl FileExistsError
      else if list_ex (\<lambda>a. a \<in> files fs) (ancestors p) then Inl NotADirectoryError
      else Inr (fs\<lparr>dirs := dirs fs \<union> set (ancestors p) \<union> {p}\<rparr>))"

text \<open>
  The loop, over the values of \<open>i\<close> still to come. Besides the file system it carries
  the list of the paths it has passed to \<^verbatim>\<open>os.makedirs\<close>, in order.
\<close>

fun setup_loop ::
  "string \<Rightarrow> nat list \<Rightarrow> file_system \<Rightarrow> string list \<Rightarrow> error + file_system \<times> string list"
where
  "setup_loop save_dir [] fs created = Inr (fs, created)"
| "setup_loop save_dir (i # rest) fs created =
     (let directory_name = format_02d i in
      if \<not> path_exists fs (save_dir @ ''/'' @ directory_name)
      then (case makedirs (save_dir @ ''/'' @ directory_name) fs of
              Inl e \<Rightarrow> Inl e
            | Inr fs' \<Rightarrow> setup_loop save_dir rest fs' (created @ [save_dir @ ''/'' @ directory_name]))
      else setup_loop save_dir rest fs created)"

text \<open>The path of the directory for the number \<open>i\<close>.\<close>

definition target :: "string \<Rightarrow> nat \<Rightarrow> string" where
  "target save_dir i = save_dir @ ''/'' @ format_02d i"

text \<open>
  What a run of the loop that returns has done: regular files untouched, every directory of
  the list present, and the directories of the file system those of before, the paths
  passed to \<^verbatim>\<open>os.makedirs\<close> (none of which existed) and their ancestors.
\<close>

definition setup_post ::
  "string \<Rightarrow> nat list \<Rightarrow> file_system \<Rightarrow> string list \<Rightarrow> file_system \<Rightarrow> string list \<Rightarrow> bool" where
  "setup_post save_dir todo fs created fs' created' =
     (files fs' = files fs \<and>
      (\<forall>i \<in> set todo. path_exists fs' (target save_dir i)) \<and>
      (\<exists>new. created' = created @ new \<and>
             set new \<subseteq> target save_dir ` set todo \<and>
             (\<forall>p \<in> set new. \<not> path_exists fs p) \<and>
             dirs fs' = dirs fs \<union> set new \<union> (\<Union>p \<in> set new. set (ancestors p))))"

text \<open>
  \<^verbatim>\<open>--save-dir\<close> is optional: without it \<^verbatim>\<open>args.save_dir\<close> is \<open>None\<close> and
  \<^verbatim>\<open>args.save_dir + "/"\<close> raises \<open>TypeError\<close>.
\<close>

definition dir_setup :: "string option \<Rightarrow> file_system \<Rightarrow> error + file_system \<times> string list" where
  "dir_setup save_dir fs =
     (case save_dir of
        None \<Rightarrow> Inl TypeError
      | Some sd \<Rightarrow> setup_loop sd [0..<11] fs [])"


section \<open>Data loaders (lines 62--74)\<close>

text \<open>
  \<^verbatim>\<open>
  for split in dataset:
      sampler = DistributedSampler(dataset[split], num_replicas=dist.size(),
                                   rank=dist.rank(), shuffle=(split == 'train'))
      dataflow[split] = DataLoader(dataset[split],
          batch_size=configs.batch_size if split == 'train' else 1,
          sampler=sampler, num_workers=configs.workers_per_gpu,
          pin_memory=True, collate_fn=dataset[split].collate_fn)
  \<close>
  The sampler and the loader are library classes; what the script decides is their
  arguments, and a loader is the record of them. The dataset dictionary is the list of
  its items in iteration order.
\<close>

record 'd sampler =
  sampler_dataset :: 'd
  num_replicas :: int
  rank :: int
  shuffle :: bool

record 'd loader =
  loader_dataset :: 'd
  batch_size :: int
  loader_sampler :: "'d sampler"
  num_workers :: int
  pin_memory :: bool

record configs =
  cfg_batch_size :: int
  workers_per_gpu :: int

definition make_loader :: "configs \<Rightarrow> int \<Rightarrow> int \<Rightarrow> string \<Rightarrow> 'd \<Rightarrow> 'd loader" where
  "make_loader cfg dist_size dist_rank split ds =
     (let sampler = \<lparr>sampler_dataset = ds, num_replicas = dist_size, rank = dist_rank,
                      shuffle = (split = ''train'')\<rparr>
      in \<lparr>loader_dataset = ds,
          batch_size = (if split = ''train'' then cfg_batch_size cfg else 1),
          loader_sampler = sampler,
          num_workers = workers_per_gpu cfg,
          pin_memory = True\<rparr>)"

fun make_dataflow ::
  "configs \<Rightarrow> int \<Rightarrow> int \<Rightarrow> (string \<times> 'd) list \<Rightarrow> (string \<rightharpoonup> 'd loader) \<Rightarrow> (string \<rightharpoonup> 'd loader)"
where
  "make_dataflow cfg dist_size dist_rank [] dataflow = dataflow"
| "make_dataflow cfg dist_size dist_rank ((split, ds) # rest) dataflow =
     make_dataflow cfg dist_size dist_rank rest
       (dataflow(split \<mapsto> make_loader cfg dist_size dist_rank split ds))"

text \<open>\<^verbatim>\<open>dataflow['test']\<close>: a missing key raises \<open>KeyError\<close>.\<close>

definition test_dataflow :: "(string \<rightharpoonup> 'd loader) \<Rightarrow> error + 'd loader" where
  "test_dataflow dataflow = (case dataflow ''test'' of None \<Rightarrow> Inl KeyError | Some l \<Rightarrow> Inr l)"

section \<open>Model selection (lines 76--83)\<close>



section \<open>Mapping the predictions back to the points (lines 126--139)\<close>

text \<open>
  \<^verbatim>\<open>
  invs = feed_dict['inverse_map']
  _outputs = []
  for idx in range(invs.C[:, -1].max() + 1):
      cur_scene_pts = (inputs.C[:, -1] == idx).cpu().numpy()
      cur_inv = invs.F[invs.C[:, -1] == idx].cpu().numpy()
      outputs_mapped = outputs[cur_scene_pts][cur_inv].argmax(1)
      _outputs.append(outputs_mapped)
  outputs = torch.cat(_outputs, 0)
  \<close>
  (The lines that collect the targets in the same loop are left out: they read other
  tensors and do not touch \<open>_outputs\<close>.)

  A sparse tensor is the list of its rows. Of the coordinates \<open>C\<close> only the last
  column, the batch index, is read: \<open>inputs.C[:, -1]\<close> is a list of integers, one for
  each voxel, and the inverse map is a list of pairs, the batch index of a point (from
  \<open>invs.C\<close>) and the position of its voxel among the voxels of its scene (from
  \<open>invs.F\<close>). The model's output is one row of class scores for each voxel; the scores
  are compared only, so their type is any linear order.
\<close>

text \<open>\<^verbatim>\<open>t.max()\<close> raises on a tensor without elements.\<close>

definition tensor_max :: "int list \<Rightarrow> error + int" where
  "tensor_max xs = (case xs of [] \<Rightarrow> Inl RuntimeError | x # rest \<Rightarrow> Inr (fold max rest x))"

definition py_range :: "int \<Rightarrow> int list" where
  "py_range n = map int [0..<nat n]"

text \<open>
  \<^verbatim>\<open>t[mask]\<close> with a boolean mask: the rows where the mask holds; the mask must be
  as long as the tensor.
\<close>

definition mask_select :: "'r list \<Rightarrow> bool list \<Rightarrow> error + 'r list" where
  "mask_select rows keep =
     (if length keep \<noteq> length rows then Inl IndexError
      else Inr (map fst (filter snd (zip rows keep))))"

text \<open>The results of a list of steps, or the first exception among them.\<close>

fun collect :: "(error + 'r) list \<Rightarrow> error + 'r list" where
  "collect [] = Inr []"
| "collect (Inl e # rs) = Inl e"
| "collect (Inr v # rs) = (case collect rs of Inl e \<Rightarrow> Inl e | Inr vs \<Rightarrow> Inr (v # vs))"

text \<open>\<^verbatim>\<open>t[index_array]\<close>: the rows at the given indices, each read as \<open>xs[i]\<close> is.\<close>

definition gather :: "'r list \<Rightarrow> int list \<Rightarrow> error + 'r list" where
  "gather rows idxs = collect (map (py_index rows) idxs)"

text \<open>
  \<^verbatim>\<open>argmax\<close> of a row: the position of its first greatest score. A row without
  classes has none.
\<close>

fun argmax_from :: "'a::linorder list \<Rightarrow> nat \<Rightarrow> nat \<Rightarrow> 'a \<Rightarrow> nat" where
  "argmax_from [] k best_k best = best_k"
| "argmax_from (x # xs) k best_k best =
     (if best < x then argmax_from xs (Suc k) k x else argmax_from xs (Suc k) best_k best)"

definition argmax_row :: "'a::linorder list \<Rightarrow> error + nat" where
  "argmax_row r = (case r of [] \<Rightarrow> Inl IndexError | x # xs \<Rightarrow> Inr (argmax_from xs 1 0 x))"

definition argmax1 :: "'a::linorder list list \<Rightarrow> error + nat list" where
  "argmax1 rows = collect (map argmax_row rows)"

text \<open>The body of the loop for one scene index.\<close>

definition outputs_mapped ::
  "int list \<Rightarrow> 'a::linorder list list \<Rightarrow> (int \<times> int) list \<Rightarrow> int \<Rightarrow> error + nat list"
where
  "outputs_mapped inputs_C outputs invs idx =
     (let cur_scene_pts = map (\<lambda>b. b = idx) inputs_C;
          cur_inv = map snd (filter (\<lambda>(b, i). b = idx) invs)
      in case mask_select outputs cur_scene_pts of
           Inl e \<Rightarrow> Inl e
         | Inr scene \<Rightarrow>
             (case gather scene cur_inv of
                Inl e \<Rightarrow> Inl e
              | Inr rows \<Rightarrow> argmax1 rows))"

fun scene_loop ::
  "int list \<Rightarrow> 'a::linorder list list \<Rightarrow> (int \<times> int) list \<Rightarrow> int list \<Rightarrow> nat list list
     \<Rightarrow> error + nat list list"
where
  "scene_loop inputs_C outputs invs [] acc = Inr acc"
| "scene_loop inputs_C outputs invs (idx # rest) acc =
     (case outputs_mapped inputs_C outputs invs idx of
        Inl e \<Rightarrow> Inl e
      | Inr m \<Rightarrow> scene_loop inputs_C outputs invs rest (acc @ [m]))"

text \<open>\<^verbatim>\<open>torch.cat\<close> raises on an empty list of tensors.\<close>

definition torch_cat :: "'r list list \<Rightarrow> error + 'r list" where
  "torch_cat ts = (if ts = [] then Inl RuntimeError else Inr (concat ts))"

definition map_predictions ::
  "int list \<Rightarrow> 'a::linorder list list \<Rightarrow> (int \<times> int) list \<Rightarrow> error + nat list"
where
  "map_predictions inputs_C outputs invs =
     (case tensor_max (map fst invs) of
        Inl e \<Rightarrow> Inl e
      | Inr m \<Rightarrow>
          (case scene_loop inputs_C outputs invs (py_range (m + 1)) [] of
             Inl e \<Rightarrow> Inl e
           | Inr outs \<Rightarrow> torch_cat outs))"



definition voxel_class :: "'a::linorder list \<Rightarrow> nat" where
  "voxel_class r = argmax_from (tl r) 1 0 (hd r)"


definition max_batch_index :: "(int \<times> int) list \<Rightarrow> int" where
  "max_batch_index invs = Max (set (map fst invs))"



section \<open>The output file (lines 143--148)\<close>

text \<open>
  \<^verbatim>\<open>
  abs_input_path = feed_dict['file_name'][0].split("/")
  output_file_name = args.save_dir + "/" + abs_input_path[-3] + "/"
                     + abs_input_path[-1].replace('.bin', '.label')
  \<close>
\<close>

definition output_file_name :: "string \<Rightarrow> string list \<Rightarrow> error + string" where
  "output_file_name save_dir file_name =
     (case py_index file_name 0 of
        Inl e \<Rightarrow> Inl e
      | Inr first_name \<Rightarrow>
          (let abs_input_path = split_sep CHR ''/'' first_name in
           case py_index abs_input_path (- 3) of
             Inl e \<Rightarrow> Inl e
           | Inr sequence \<Rightarrow>
               (case py_index abs_input_path (- 1) of
                  Inl e \<Rightarrow> Inl e
                | Inr base \<Rightarrow>
                    Inr (save_dir @ ''/'' @ sequence @ ''/'' @ replace ''.bin'' ''.label'' base))))"

text \<open>
  The file name in the specification's words: the base name with the suffix
  \<open>.bin\<close> replaced by \<open>.label\<close>.
\<close>

definition replace_suffix_spec :: "string \<Rightarrow> string" where
  "replace_suffix_spec base =
     (if suffix ''.bin'' base then take (length base - 4) base @ ''.label'' else base)"

text \<open>
  One step of the evaluation loop, from the batch and the model's output for it to the
  file it writes: the path and the bytes handed to \<^verbatim>\<open>tofile\<close>.
\<close>

record feed_dict =
  lidar_C :: "int list"
  inverse_map :: "(int \<times> int) list"
  file_name :: "string list"

definition eval_step ::
  "string \<Rightarrow> feed_dict \<Rightarrow> 'a::linorder list list \<Rightarrow> error + string \<times> byte list"
where
  "eval_step save_dir fd outputs =
     (case map_predictions (lidar_C fd) outputs (inverse_map fd) of
        Inl e \<Rightarrow> Inl e
      | Inr mapped \<Rightarrow>
          (case output_file_name save_dir (file_name fd) of
             Inl e \<Rightarrow> Inl e
           | Inr path \<Rightarrow> Inr (path, tofile_bytes (pred_eval mapped))))"

text \<open>
  The path in the specification's words: the save directory, the sequence (the third
  component from the end of the input path) and the base name with its suffix replaced.
\<close>

definition output_file_name_spec :: "string \<Rightarrow> string \<Rightarrow> string" where
  "output_file_name_spec save_dir first_name =
     (let parts = split_sep CHR ''/'' first_name
      in save_dir @ ''/'' @ parts ! (length parts - 3) @ ''/'' @ replace_suffix_spec (last parts))"

text \<open>
  The arguments a loader must have been made with, given the name of its split: batch size
  1 and no shuffling, except for \<open>train\<close>.
\<close>

definition loader_ok :: "configs \<Rightarrow> string \<Rightarrow> 'd loader \<Rightarrow> bool" where
  "loader_ok cfg split l =
     (batch_size l = (if split = ''train'' then cfg_batch_size cfg else 1) \<and>
      shuffle (loader_sampler l) = (split = ''train''))"

section \<open>Properties of the label packing\<close>

lemma length_sem_of: "length (sem_of outputs) = length outputs"
  by (simp add: sem_of_def astype_uint32_def)

lemma length_ins_of: "length (ins_of outputs) = length outputs"
  by (simp add: ins_of_def zeros_like_def length_sem_of)

lemma length_pred_eval: "length (pred_eval outputs) = length outputs"
  by (simp add: pred_eval_def length_sem_of length_ins_of)

lemma map_zip_same: "map f (zip xs xs) = map (\<lambda>x. f (x, x)) xs"
  by (induction xs) auto

lemma pred_eval_map: "pred_eval outputs = map of_nat outputs"
  by (simp add: pred_eval_def sem_of_def ins_of_def astype_uint32_def zeros_like_def
      encode_def zip_map_map map_zip_same)

lemma length_tofile_bytes: "length (tofile_bytes ws) = 4 * length ws"
  by (induction ws) (simp_all add: tofile_bytes_def word_bytes_def)

lemma low16: "(s::u32) < 2 ^ 16 \<Longrightarrow> take_bit 16 s = s"
  by (simp add: take_bit_eq_mask less_mask_eq)

lemma drop_low16: "(s::u32) < 2 ^ 16 \<Longrightarrow> drop_bit 16 s = 0"
proof -
  assume "s < 2 ^ 16"
  then have "take_bit 16 s = s" by (rule low16)
  then have "drop_bit 16 s = drop_bit 16 (take_bit 16 s)" by simp
  also have "\<dots> = 0" by (simp add: drop_bit_take_bit)
  finally show ?thesis .
qed

lemma low16_disjoint: "(s::u32) < 2 ^ 16 \<Longrightarrow> s AND push_bit 16 i = 0"
proof -
  assume "s < 2 ^ 16"
  then have e: "take_bit 16 s = s" by (rule low16)
  have "take_bit 16 s AND push_bit 16 i = 0"
    by (rule bit_eqI) (auto simp: bit_simps)
  with e show ?thesis by simp
qed

text \<open>
  With a semantic label below \<open>2 ^ 16\<close> the sum of the script and the bitwise or of the
  specification are the same word, whatever the instance label.
\<close>

lemma encode_eq_encode_spec: "s < 2 ^ 16 \<Longrightarrow> encode s i = encode_spec s i"
  unfolding encode_def encode_spec_def
  by (rule disjunctive_add_eq_or) (rule low16_disjoint)

lemma of_nat_lt_2p16: "n < 2 ^ 16 \<Longrightarrow> (of_nat n :: u32) < 2 ^ 16"
  by (simp add: word_less_nat_alt unat_of_nat)

lemma unat_class_index: "n < 2 ^ 16 \<Longrightarrow> unat (of_nat n :: u32) = n"
  by (simp add: unat_of_nat)

lemma drop_class_index: "n < 2 ^ 16 \<Longrightarrow> drop_bit 16 (of_nat n :: u32) = 0"
  by (rule drop_low16) (rule of_nat_lt_2p16)

text \<open>
  Claim C2. Every word of the array that is written to the label file is
  \<open>semantic | (instance << 16)\<close> in 32-bit unsigned arithmetic, where the semantic
  label is the predicted class index of the point (converted to \<open>uint32\<close>) and the
  instance label is the point's entry of \<open>ins\<close>: the sum the script computes and the
  bitwise or of the specification give the same array.
\<close>

theorem written_words_are_packed_labels:
  "pred_eval outputs = map2 encode_spec (sem_of outputs) (ins_of outputs) \<and>
   sem_of outputs = map of_nat outputs \<and>
   length (pred_eval outputs) = length outputs"
proof -
  have "map2 encode_spec (sem_of outputs) (ins_of outputs) = map of_nat outputs"
    by (simp add: ins_of_def zeros_like_def encode_spec_def zip_map_map map_zip_same
        sem_of_def astype_uint32_def)
  then show ?thesis
    by (simp add: pred_eval_map length_pred_eval sem_of_def astype_uint32_def)
qed

text \<open>
  Claim C3, as stated: for every semantic value and instance value 0, decoding the packed
  word gives the pair back. A semantic value is a \<open>uint32\<close> in the script, and at
  \<open>65536\<close> the decoder reads semantic label 0 and instance label 1.
\<close>

theorem roundtrip_counterexample:
  "decode_spec (encode 65536 0) = (0, 1) \<and> decode_spec (encode 65536 0) \<noteq> (65536, 0)"
  by (simp add: decode_spec_def encode_def mask_eq_exp_minus_1)

text \<open>
  Claim C3, amended: for every semantic value below \<open>2 ^ 16\<close> and instance value 0,
  decoding the packed word gives the pair back.
\<close>

theorem roundtrip_below_2p16: "s < 2 ^ 16 \<Longrightarrow> decode_spec (encode s 0) = (s, 0)"
  by (simp add: decode_spec_def encode_def less_mask_eq drop_low16)

theorem roundtrip_below_2p16_witness:
  "(19::u32) < 2 ^ 16 \<and> decode_spec (encode 19 0) = (19, 0)"
  using roundtrip_below_2p16 [of 19] by simp

text \<open>
  Claim C8, as stated: every written word has its upper 16 bits zero. The word is the
  class index itself, so a class index of \<open>65536\<close> is written with upper half 1.
\<close>

theorem upper_bits_counterexample:
  "drop_bit 16 (pred_eval [65536] ! 0) = (1 :: u32) \<and>
   drop_bit 16 (pred_eval [65536] ! 0) \<noteq> (0 :: u32)"
  by (simp add: pred_eval_map)

text \<open>
  Claim C8, amended: the instance label is the zero array, so every written word is the
  predicted class index of its point converted to \<open>uint32\<close>; whenever that index is
  below \<open>2 ^ 16\<close> the upper 16 bits of the word are zero and the word equals the
  index exactly.
\<close>

theorem written_word_is_class_index:
  "k < length outputs \<Longrightarrow>
     ins_of outputs ! k = 0 \<and>
     pred_eval outputs ! k = of_nat (outputs ! k) \<and>
     (outputs ! k < 2 ^ 16 \<longrightarrow>
        drop_bit 16 (pred_eval outputs ! k) = 0 \<and>
        unat (pred_eval outputs ! k) = outputs ! k)"
  by (simp add: pred_eval_map drop_class_index unat_class_index ins_of_def zeros_like_def
      length_sem_of)

theorem written_word_is_class_index_witness:
  "(1::nat) < length [3, 18 :: nat] \<and>
   ins_of [3, 18] ! 1 = 0 \<and>
   pred_eval [3, 18] ! 1 = of_nat ([3, 18] ! 1) \<and>
   [3, 18 :: nat] ! 1 < 2 ^ 16 \<and>
   drop_bit 16 (pred_eval [3, 18] ! 1) = 0 \<and>
   unat (pred_eval [3, 18] ! 1) = [3, 18] ! 1"
  using written_word_is_class_index [of 1 "[3, 18]"] by simp

section \<open>Properties of the model selection\<close>

text \<open>\<open>contains\<close> is the contiguous-sublist relation of the list library.\<close>

lemma contains_sublist: "contains sub s = sublist sub s"
  by (induction s) (auto simp: sublist_Cons_right)




section \<open>Properties of the output path\<close>

lemma py_index_first: "py_index (x # xs) 0 = Inr x"
  by (simp add: py_index_def)

lemma py_index_third_last: "3 \<le> length xs \<Longrightarrow> py_index xs (- 3) = Inr (xs ! (length xs - 3))"
  by (simp add: py_index_def Let_def nat_diff_distrib')

lemma py_index_last: "xs \<noteq> [] \<Longrightarrow> py_index xs (- 1) = Inr (last xs)"
  by (cases xs) (simp_all add: py_index_def last_conv_nth nat_diff_distrib')

lemma split_sep_nonempty: "split_sep sep s \<noteq> []"
  by (induction s) (auto split: list.splits)

text \<open>
  An occurrence of \<open>.bin\<close> that starts inside the scan id cannot end inside the suffix:
  the only dot of \<open>.bin\<close> is its first character.
\<close>

lemma bin_no_straddle:
  assumes "prefix ''.bin'' (c # cs @ ''.bin'')"
  shows "prefix ''.bin'' (c # cs)"
proof (cases cs)
  case Nil
  with assms show ?thesis by simp
next
  case c1: (Cons d ds)
  show ?thesis
  proof (cases ds)
    case Nil
    with assms c1 show ?thesis by simp
  next
    case c2: (Cons e es)
    show ?thesis
    proof (cases es)
      case Nil
      with assms c1 c2 show ?thesis by simp
    next
      case (Cons f fs)
      with assms c1 c2 show ?thesis by simp
    qed
  qed
qed

lemma replace_step:
  "old \<noteq> [] \<Longrightarrow> \<not> prefix old (c # s) \<Longrightarrow> replace old new (c # s) = c # replace old new s"
  by simp

lemma replace_bin_suffix:
  "\<not> contains ''.bin'' sid \<Longrightarrow> replace ''.bin'' ''.label'' (sid @ ''.bin'') = sid @ ''.label''"
proof (induction sid)
  case Nil
  show ?case by simp
next
  case (Cons c cs)
  from Cons.prems have np: "\<not> prefix ''.bin'' (c # cs)" and nc: "\<not> contains ''.bin'' cs"
    by simp_all
  from np have "\<not> prefix ''.bin'' (c # cs @ ''.bin'')"
    using bin_no_straddle by blast
  then have "replace ''.bin'' ''.label'' (c # cs @ ''.bin'') =
             c # replace ''.bin'' ''.label'' (cs @ ''.bin'')"
    by (intro replace_step) simp_all
  also have "\<dots> = c # cs @ ''.label''"
    using Cons.IH [OF nc] by (simp only:)
  finally show ?case by (simp only: append_Cons)
qed

lemma output_file_name_parts:
  assumes "split_sep CHR ''/'' first_name = parts" and "3 \<le> length parts"
  shows "output_file_name save_dir (first_name # rest) =
     Inr (save_dir @ ''/'' @ parts ! (length parts - 3) @ ''/'' @
          replace ''.bin'' ''.label'' (last parts))"
proof -
  from assms(2) have ne: "parts \<noteq> []" by auto
  show ?thesis
    by (simp add: output_file_name_def py_index_first assms(1)
        py_index_third_last [OF assms(2)] py_index_last [OF ne])
qed

lemma output_file_name_first: "output_file_name save_dir (f # rest) = output_file_name save_dir [f]"
  by (simp add: output_file_name_def py_index_first)

text \<open>
  Claim C6, as stated: the file name is the base name of the scan with its suffix
  \<open>.bin\<close> replaced by \<open>.label\<close>. \<^verbatim>\<open>str.replace\<close> replaces every occurrence: for
  the scan \<open>a.bin.bin\<close> the script writes \<open>a.label.label\<close>, and replacing the suffix
  gives \<open>a.bin.label\<close>.
\<close>

theorem output_path_counterexample:
  "output_file_name ''out'' [''/data/sequences/08/velodyne/a.bin.bin''] =
     Inr ''out/08/a.label.label'' \<and>
   output_file_name_spec ''out'' ''/data/sequences/08/velodyne/a.bin.bin'' =
     ''out/08/a.bin.label'' \<and>
   output_file_name ''out'' [''/data/sequences/08/velodyne/a.bin.bin''] \<noteq>
     Inr (output_file_name_spec ''out'' ''/data/sequences/08/velodyne/a.bin.bin'')"
  by (simp add: output_file_name_def py_index_def output_file_name_spec_def
      replace_suffix_spec_def suffix_def)

text \<open>
  Claim C6, amended: for an input path of at least three components the label file is
  written to the save directory, then the third component from the end of the first
  input path of the batch, then the base name with every occurrence of \<open>.bin\<close> replaced
  by \<open>.label\<close>; when the base name is a scan id followed by \<open>.bin\<close> and the scan id has
  no \<open>.bin\<close> in it, that is the scan id followed by \<open>.label\<close>.
\<close>

theorem output_path_replaces_every_bin:
  assumes "split_sep CHR ''/'' first_name = parts" and "3 \<le> length parts"
  shows "output_file_name save_dir (first_name # rest) =
           Inr (save_dir @ ''/'' @ parts ! (length parts - 3) @ ''/'' @
                replace ''.bin'' ''.label'' (last parts)) \<and>
         (last parts = scan_id @ ''.bin'' \<and> \<not> contains ''.bin'' scan_id \<longrightarrow>
            output_file_name save_dir (first_name # rest) =
              Inr (save_dir @ ''/'' @ parts ! (length parts - 3) @ ''/'' @ scan_id @ ''.label''))"
  using output_file_name_parts [OF assms] replace_bin_suffix [of scan_id] by simp

theorem output_path_replaces_every_bin_witness:
  "split_sep CHR ''/'' ''/data/sequences/08/velodyne/000123.bin'' =
     [[], ''data'', ''sequences'', ''08'', ''velodyne'', ''000123.bin''] \<and>
   3 \<le> length [[], ''data'', ''sequences'', ''08'', ''velodyne'', ''000123.bin''] \<and>
   last [[], ''data'', ''sequences'', ''08'', ''velodyne'', ''000123.bin''] = ''000123'' @ ''.bin'' \<and>
   \<not> contains ''.bin'' ''000123'' \<and>
   output_file_name ''out'' [''/data/sequences/08/velodyne/000123.bin''] =
     Inr ''out/08/000123.label''"
proof -
  have s: "split_sep CHR ''/'' ''/data/sequences/08/velodyne/000123.bin'' =
     [[], ''data'', ''sequences'', ''08'', ''velodyne'', ''000123.bin'']" by simp
  have l: "3 \<le> length [[], ''data'', ''sequences'', ''08'', ''velodyne'', ''000123.bin'']"
    by simp
  have nc: "\<not> contains ''.bin'' ''000123''" by simp
  from output_path_replaces_every_bin [OF s l, of "''out''" "[]" "''000123''"] nc s
  show ?thesis by simp
qed

section \<open>Properties of the data loaders\<close>

lemma make_loader_ok: "loader_ok cfg split (make_loader cfg sz rk split d)"
  by (simp add: loader_ok_def make_loader_def)

lemma make_dataflow_inv:
  "(\<And>s l. df s = Some l \<Longrightarrow> loader_ok cfg s l) \<Longrightarrow>
   make_dataflow cfg sz rk ds df s = Some l \<Longrightarrow> loader_ok cfg s l"
proof (induction cfg sz rk ds df rule: make_dataflow.induct)
  case (1 cfg sz rk df)
  then show ?case by simp
next
  case (2 cfg sz rk split d rest df)
  show ?case
  proof (rule "2.IH")
    fix s' l' assume "(df(split \<mapsto> make_loader cfg sz rk split d)) s' = Some l'"
    then show "loader_ok cfg s' l'"
      using "2.prems"(1) make_loader_ok [of cfg split sz rk d]
      by (cases "s' = split") auto
  next
    from "2.prems"(2)
    show "make_dataflow cfg sz rk rest (df(split \<mapsto> make_loader cfg sz rk split d)) s = Some l"
      by simp
  qed
qed

lemma dom_make_dataflow: "dom (make_dataflow cfg sz rk ds df) = dom df \<union> fst ` set ds"
proof (induction cfg sz rk ds df rule: make_dataflow.induct)
  case (1 cfg sz rk df)
  show ?case by simp
next
  case (2 cfg sz rk split d rest df)
  have "dom (make_dataflow cfg sz rk rest (df(split \<mapsto> make_loader cfg sz rk split d))) =
        dom (df(split \<mapsto> make_loader cfg sz rk split d)) \<union> fst ` set rest"
    by (rule "2.IH")
  then show ?case by simp
qed

text \<open>
  Claim C10. Every split of the dataset gets a loader. The loader of a split other than
  \<open>train\<close>, the \<open>test\<close> split among them, has batch size 1 and a sampler that does
  not shuffle; the loader of \<open>train\<close> has the configured batch size and a sampler that
  shuffles; so the loader the evaluation iterates over, \<open>dataflow['test']\<close>, has batch
  size 1 and does not shuffle. The output file name of a step depends on the first file
  name of the batch only.
\<close>

theorem loaders_and_first_file_name:
  "(split \<in> fst ` set dataset \<longrightarrow>
      (\<exists>l. make_dataflow cfg sz rk dataset Map.empty split = Some l)) \<and>
   (make_dataflow cfg sz rk dataset Map.empty split = Some l \<longrightarrow>
      (split \<noteq> ''train'' \<longrightarrow> batch_size l = 1 \<and> \<not> shuffle (loader_sampler l)) \<and>
      (split = ''train'' \<longrightarrow> batch_size l = cfg_batch_size cfg \<and> shuffle (loader_sampler l))) \<and>
   (test_dataflow (make_dataflow cfg sz rk dataset Map.empty) = Inr t \<longrightarrow>
      batch_size t = 1 \<and> \<not> shuffle (loader_sampler t)) \<and>
   output_file_name save_dir (f # rest) = output_file_name save_dir [f]"
proof -
  have a: "split \<in> fst ` set dataset \<longrightarrow>
      (\<exists>l. make_dataflow cfg sz rk dataset Map.empty split = Some l)"
    using dom_make_dataflow [of cfg sz rk dataset Map.empty] by auto
  have b: "make_dataflow cfg sz rk dataset Map.empty split = Some l \<longrightarrow>
      (split \<noteq> ''train'' \<longrightarrow> batch_size l = 1 \<and> \<not> shuffle (loader_sampler l)) \<and>
      (split = ''train'' \<longrightarrow> batch_size l = cfg_batch_size cfg \<and> shuffle (loader_sampler l))"
  proof
    assume "make_dataflow cfg sz rk dataset Map.empty split = Some l"
    then have "loader_ok cfg split l"
      by (rule make_dataflow_inv [rotated]) simp
    then show "(split \<noteq> ''train'' \<longrightarrow> batch_size l = 1 \<and> \<not> shuffle (loader_sampler l)) \<and>
      (split = ''train'' \<longrightarrow> batch_size l = cfg_batch_size cfg \<and> shuffle (loader_sampler l))"
      by (simp add: loader_ok_def)
  qed
  have c: "test_dataflow (make_dataflow cfg sz rk dataset Map.empty) = Inr t \<longrightarrow>
      batch_size t = 1 \<and> \<not> shuffle (loader_sampler t)"
  proof
    assume "test_dataflow (make_dataflow cfg sz rk dataset Map.empty) = Inr t"
    then have "make_dataflow cfg sz rk dataset Map.empty ''test'' = Some t"
      by (simp add: test_dataflow_def split: option.splits)
    then have "loader_ok cfg ''test'' t"
      by (rule make_dataflow_inv [rotated]) simp
    then show "batch_size t = 1 \<and> \<not> shuffle (loader_sampler t)"
      by (simp add: loader_ok_def)
  qed
  from a b c output_file_name_first show ?thesis by blast
qed

theorem loaders_and_first_file_name_witness:
  "''test'' \<in> fst ` set [(''train'', 0::nat), (''test'', 1)] \<and>
   make_dataflow \<lparr>cfg_batch_size = 2, workers_per_gpu = 8\<rparr> 1 0
       [(''train'', 0::nat), (''test'', 1)] Map.empty ''test''
     = Some (make_loader \<lparr>cfg_batch_size = 2, workers_per_gpu = 8\<rparr> 1 0 ''test'' 1) \<and>
   test_dataflow (make_dataflow \<lparr>cfg_batch_size = 2, workers_per_gpu = 8\<rparr> 1 0
       [(''train'', 0::nat), (''test'', 1)] Map.empty)
     = Inr (make_loader \<lparr>cfg_batch_size = 2, workers_per_gpu = 8\<rparr> 1 0 ''test'' 1) \<and>
   ''test'' \<noteq> ''train'' \<and>
   batch_size (make_loader \<lparr>cfg_batch_size = 2, workers_per_gpu = 8\<rparr> 1 0 ''test'' (1::nat)) = 1 \<and>
   \<not> shuffle (loader_sampler
        (make_loader \<lparr>cfg_batch_size = 2, workers_per_gpu = 8\<rparr> 1 0 ''test'' (1::nat)))"
  using loaders_and_first_file_name
    [of "''test''" "[(''train'', 0::nat), (''test'', 1)]"
        "\<lparr>cfg_batch_size = 2, workers_per_gpu = 8\<rparr>" 1 0
        "make_loader \<lparr>cfg_batch_size = 2, workers_per_gpu = 8\<rparr> 1 0 ''test'' 1"
        "make_loader \<lparr>cfg_batch_size = 2, workers_per_gpu = 8\<rparr> 1 0 ''test'' 1"]
  by (simp add: test_dataflow_def)

section \<open>Properties of the directory setup\<close>




lemma makedirs_Inr:
  "makedirs p fs = Inr fs' \<Longrightarrow>
     \<not> path_exists fs p \<and> fs' = fs\<lparr>dirs := dirs fs \<union> set (ancestors p) \<union> {p}\<rparr>"
  by (auto simp: makedirs_def split: if_splits)

lemma path_exists_mono:
  "dirs fs \<subseteq> dirs fs' \<Longrightarrow> files fs' = files fs \<Longrightarrow> path_exists fs p \<Longrightarrow> path_exists fs' p"
  by (auto simp: path_exists_def)

lemma setup_post_dirs_mono: "setup_post sd todo fs created fs' created' \<Longrightarrow> dirs fs \<subseteq> dirs fs'"
  by (auto simp: setup_post_def)

lemma setup_postI:
  assumes "files fs' = files fs"
    and "\<forall>i \<in> set todo. path_exists fs' (target sd i)"
    and "created' = created @ new"
    and "set new \<subseteq> target sd ` set todo"
    and "\<forall>p \<in> set new. \<not> path_exists fs p"
    and "dirs fs' = dirs fs \<union> set new \<union> (\<Union>p \<in> set new. set (ancestors p))"
  shows "setup_post sd todo fs created fs' created'"
  unfolding setup_post_def using assms by blast

lemma setup_loop_post:
  "setup_loop sd todo fs created = Inr (fs', created') \<Longrightarrow> setup_post sd todo fs created fs' created'"
proof (induction todo arbitrary: fs created)
  case Nil
  then have "fs' = fs" and "created' = created" by simp_all
  then show ?case by (simp add: setup_post_def)
next
  case (Cons i rest)
  let ?p = "target sd i"
  show ?case
  proof (cases "path_exists fs ?p")
    case True
    with Cons.prems have "setup_loop sd rest fs created = Inr (fs', created')"
      by (simp add: target_def)
    from Cons.IH [OF this] have post: "setup_post sd rest fs created fs' created'" .
    then obtain new where new:
      "created' = created @ new"
      "set new \<subseteq> target sd ` set rest"
      "\<forall>q \<in> set new. \<not> path_exists fs q"
      "dirs fs' = dirs fs \<union> set new \<union> (\<Union>q \<in> set new. set (ancestors q))"
      and files: "files fs' = files fs"
      and ex: "\<forall>j \<in> set rest. path_exists fs' (target sd j)"
      unfolding setup_post_def by blast
    from new(4) have "dirs fs \<subseteq> dirs fs'" by blast
    with True files have "path_exists fs' ?p" by (auto simp: path_exists_def)
    with ex have e: "\<forall>j \<in> set (i # rest). path_exists fs' (target sd j)" by simp
    from new(2) have n2: "set new \<subseteq> target sd ` set (i # rest)" by auto
    from files e new(1) n2 new(3) new(4) show ?thesis by (rule setup_postI)
  next
    case False
    with Cons.prems
    have "(case makedirs ?p fs of Inl e \<Rightarrow> Inl e
           | Inr fs1 \<Rightarrow> setup_loop sd rest fs1 (created @ [?p])) = Inr (fs', created')"
      unfolding target_def by (simp add: Let_def)
    then obtain fs1 where mk: "makedirs ?p fs = Inr fs1"
      and loop: "setup_loop sd rest fs1 (created @ [?p]) = Inr (fs', created')"
      by (cases "makedirs ?p fs") simp_all
    from makedirs_Inr [OF mk]
    have d1: "dirs fs1 = dirs fs \<union> set (ancestors ?p) \<union> {?p}" and f1: "files fs1 = files fs"
      by simp_all
    from Cons.IH [OF loop] have post: "setup_post sd rest fs1 (created @ [?p]) fs' created'" .
    then obtain new where new:
      "created' = (created @ [?p]) @ new"
      "set new \<subseteq> target sd ` set rest"
      "\<forall>q \<in> set new. \<not> path_exists fs1 q"
      "dirs fs' = dirs fs1 \<union> set new \<union> (\<Union>q \<in> set new. set (ancestors q))"
      and files: "files fs' = files fs1"
      and ex: "\<forall>j \<in> set rest. path_exists fs' (target sd j)"
      unfolding setup_post_def by blast
    have f: "files fs' = files fs" using files f1 by simp
    have "?p \<in> dirs fs'" using new(4) d1 by simp
    then have "path_exists fs' ?p" by (simp add: path_exists_def)
    with ex have e: "\<forall>j \<in> set (i # rest). path_exists fs' (target sd j)" by simp
    have n1: "created' = created @ (?p # new)" using new(1) by simp
    have n2: "set (?p # new) \<subseteq> target sd ` set (i # rest)" using new(2) by auto
    have "\<And>q. path_exists fs q \<Longrightarrow> path_exists fs1 q"
      using d1 f1 by (auto simp: path_exists_def)
    with new(3) False have n3: "\<forall>q \<in> set (?p # new). \<not> path_exists fs q" by auto
    have n4: "dirs fs' = dirs fs \<union> set (?p # new) \<union> (\<Union>q \<in> set (?p # new). set (ancestors q))"
      unfolding new(4) d1 by auto
    from f e n1 n2 n3 n4 show ?thesis by (rule setup_postI)
  qed
qed

lemma setup_loop_again:
  "\<forall>i \<in> set todo. path_exists fs (target sd i) \<Longrightarrow> setup_loop sd todo fs created = Inr (fs, created)"
  by (induction todo) (simp_all add: target_def)





lemma first_run:
  "dir_setup (Some ''out'') \<lparr>dirs = {}, files = {}\<rparr> =
     Inr (\<lparr>dirs = {''out'', ''out/00'', ''out/01'', ''out/02'', ''out/03'', ''out/04'', ''out/05'',
                    ''out/06'', ''out/07'', ''out/08'', ''out/09'', ''out/10''}, files = {}\<rparr>,
          [''out/00'', ''out/01'', ''out/02'', ''out/03'', ''out/04'', ''out/05'',
           ''out/06'', ''out/07'', ''out/08'', ''out/09'', ''out/10''])"
  by code_simp

text \<open>
  Claim C7. The directory setup is idempotent: a second run on the file system the first
  run has produced, with the same save directory, passes no path to
  \<^verbatim>\<open>os.makedirs\<close> and returns that file system unchanged. Each directory the first
  run has created did not exist before it.
\<close>

theorem setup_idempotent:
  assumes "dir_setup save_dir fs = Inr (fs', created)"
  shows "dir_setup save_dir fs' = Inr (fs', []) \<and> (\<forall>p \<in> set created. \<not> path_exists fs p)"
proof -
  from assms obtain sd where sd: "save_dir = Some sd"
    and loop: "setup_loop sd [0..<11] fs [] = Inr (fs', created)"
    by (cases save_dir) (simp_all add: dir_setup_def)
  from setup_loop_post [OF loop] have post: "setup_post sd [0..<11] fs [] fs' created" .
  then have "\<forall>i \<in> set [0..<11]. path_exists fs' (target sd i)"
    unfolding setup_post_def by blast
  then have "setup_loop sd [0..<11] fs' [] = Inr (fs', [])"
    by (rule setup_loop_again)
  moreover from post have "\<forall>p \<in> set created. \<not> path_exists fs p"
    unfolding setup_post_def by auto
  ultimately show ?thesis by (simp add: dir_setup_def sd)
qed

theorem setup_idempotent_witness:
  "dir_setup (Some ''out'') \<lparr>dirs = {}, files = {}\<rparr> =
     Inr (\<lparr>dirs = {''out'', ''out/00'', ''out/01'', ''out/02'', ''out/03'', ''out/04'', ''out/05'',
                    ''out/06'', ''out/07'', ''out/08'', ''out/09'', ''out/10''}, files = {}\<rparr>,
          [''out/00'', ''out/01'', ''out/02'', ''out/03'', ''out/04'', ''out/05'',
           ''out/06'', ''out/07'', ''out/08'', ''out/09'', ''out/10'']) \<and>
   dir_setup (Some ''out'')
       \<lparr>dirs = {''out'', ''out/00'', ''out/01'', ''out/02'', ''out/03'', ''out/04'', ''out/05'',
                ''out/06'', ''out/07'', ''out/08'', ''out/09'', ''out/10''}, files = {}\<rparr> =
     Inr (\<lparr>dirs = {''out'', ''out/00'', ''out/01'', ''out/02'', ''out/03'', ''out/04'', ''out/05'',
                    ''out/06'', ''out/07'', ''out/08'', ''out/09'', ''out/10''}, files = {}\<rparr>, []) \<and>
   \<not> path_exists \<lparr>dirs = {}, files = {}\<rparr> ''out/00''"
  using setup_idempotent [OF first_run] first_run by (simp add: path_exists_def)




section \<open>Properties of the mapping of the predictions\<close>

text \<open>
  \<open>voxel_class\<close> is the argmax of a row with at least one class: a position of the
  row, holding a greatest score, and the first that does.
\<close>

lemma argmax_from_invariant:
  assumes "length ys = k" and "best_k < k" and "ys ! best_k = best"
    and "\<forall>y \<in> set ys. y \<le> best" and "\<forall>j < best_k. ys ! j < best"
  shows "argmax_from xs k best_k best < length (ys @ xs) \<and>
         (\<forall>y \<in> set (ys @ xs). y \<le> (ys @ xs) ! argmax_from xs k best_k best) \<and>
         (\<forall>j < argmax_from xs k best_k best. (ys @ xs) ! j < (ys @ xs) ! argmax_from xs k best_k best)"
  using assms
proof (induction xs arbitrary: ys k best_k best)
  case Nil
  then show ?case by simp
next
  case (Cons x xs)
  show ?case
  proof (cases "best < x")
    case True
    have "argmax_from xs (Suc k) k x < length ((ys @ [x]) @ xs) \<and>
         (\<forall>y \<in> set ((ys @ [x]) @ xs). y \<le> ((ys @ [x]) @ xs) ! argmax_from xs (Suc k) k x) \<and>
         (\<forall>j < argmax_from xs (Suc k) k x. ((ys @ [x]) @ xs) ! j < ((ys @ [x]) @ xs) ! argmax_from xs (Suc k) k x)"
    proof (rule Cons.IH)
      show "length (ys @ [x]) = Suc k" using Cons.prems(1) by simp
      show "k < Suc k" by simp
      show "(ys @ [x]) ! k = x" using Cons.prems(1) [symmetric] by simp
      show "\<forall>y \<in> set (ys @ [x]). y \<le> x" using Cons.prems(4) True by auto
      show "\<forall>j < k. (ys @ [x]) ! j < x"
      proof (intro allI impI)
        fix j assume "j < k"
        with Cons.prems(1) have "ys ! j \<in> set ys" and "(ys @ [x]) ! j = ys ! j"
          by (simp_all add: nth_append)
        with Cons.prems(4) True show "(ys @ [x]) ! j < x" by auto
      qed
    qed
    with True show ?thesis by simp
  next
    case False
    have "argmax_from xs (Suc k) best_k best < length ((ys @ [x]) @ xs) \<and>
         (\<forall>y \<in> set ((ys @ [x]) @ xs). y \<le> ((ys @ [x]) @ xs) ! argmax_from xs (Suc k) best_k best) \<and>
         (\<forall>j < argmax_from xs (Suc k) best_k best. ((ys @ [x]) @ xs) ! j < ((ys @ [x]) @ xs) ! argmax_from xs (Suc k) best_k best)"
    proof (rule Cons.IH)
      show "length (ys @ [x]) = Suc k" using Cons.prems(1) by simp
      show "best_k < Suc k" using Cons.prems(2) by simp
      show "(ys @ [x]) ! best_k = best" using Cons.prems(1,2,3) by (simp add: nth_append)
      show "\<forall>y \<in> set (ys @ [x]). y \<le> best" using Cons.prems(4) False by auto
      show "\<forall>j < best_k. (ys @ [x]) ! j < best"
        using Cons.prems(1,2,5) by (simp add: nth_append)
    qed
    with False show ?thesis by simp
  qed
qed

lemma voxel_class_is_argmax:
  assumes "r \<noteq> []"
  shows "voxel_class r < length r \<and>
         (\<forall>y \<in> set r. y \<le> r ! voxel_class r) \<and>
         (\<forall>j < voxel_class r. r ! j < r ! voxel_class r)"
proof -
  from assms obtain x xs where r: "r = x # xs" by (cases r) auto
  have "argmax_from xs 1 0 x < length ([x] @ xs) \<and>
         (\<forall>y \<in> set ([x] @ xs). y \<le> ([x] @ xs) ! argmax_from xs 1 0 x) \<and>
         (\<forall>j < argmax_from xs 1 0 x. ([x] @ xs) ! j < ([x] @ xs) ! argmax_from xs 1 0 x)"
    by (rule argmax_from_invariant) simp_all
  then show ?thesis by (simp add: voxel_class_def r)
qed




lemma collect_all_Inr: "collect (map Inr vs) = Inr vs"
  by (induction vs) simp_all


lemma collect_length: "collect rs = Inr vs \<Longrightarrow> length vs = length rs"
proof (induction rs arbitrary: vs)
  case Nil
  then show ?case by simp
next
  case (Cons r rs)
  then show ?case by (cases r) (auto split: sum.splits)
qed







lemma tensor_max_Max: "xs \<noteq> [] \<Longrightarrow> tensor_max xs = Inr (Max (set xs))"
proof (cases xs)
  case Nil
  assume "xs \<noteq> []"
  with Nil show ?thesis by simp
next
  case (Cons x rest)
  assume "xs \<noteq> []"
  have "Max (set (x # rest)) = fold max rest x" by (rule Max.set_eq_fold)
  with Cons show ?thesis by (simp add: tensor_max_def)
qed


lemma max_batch_index_ge: "(b, i) \<in> set invs \<Longrightarrow> b \<le> max_batch_index invs"
  unfolding max_batch_index_def by (rule Max_ge) force+





section \<open>Properties of the written file\<close>

lemma outputs_mapped_length:
  assumes "outputs_mapped inputs_C outputs invs idx = Inr m"
  shows "length m = length (filter (\<lambda>(b, i). b = idx) invs)"
proof -
  let ?cur_inv = "map snd (filter (\<lambda>(b, i). b = idx) invs)"
  let ?sel = "mask_select outputs (map (\<lambda>b. b = idx) inputs_C)"
  from assms have e: "(case ?sel of Inl e \<Rightarrow> Inl e
      | Inr scene \<Rightarrow> (case gather scene ?cur_inv of Inl e \<Rightarrow> Inl e | Inr rows \<Rightarrow> argmax1 rows)) = Inr m"
    unfolding outputs_mapped_def Let_def .
  then obtain scene where ms: "?sel = Inr scene"
    by (cases ?sel) simp_all
  with e have e2: "(case gather scene ?cur_inv of Inl e \<Rightarrow> Inl e | Inr rows \<Rightarrow> argmax1 rows) = Inr m"
    by simp
  then obtain rows where g: "gather scene ?cur_inv = Inr rows"
    by (cases "gather scene ?cur_inv") simp_all
  with e2 have a: "argmax1 rows = Inr m" by simp
  from collect_length [OF g [unfolded gather_def]] collect_length [OF a [unfolded argmax1_def]]
  show ?thesis by simp
qed

lemma scene_loop_length:
  "scene_loop inputs_C outputs invs idxs acc = Inr res \<Longrightarrow>
   length (concat res) =
     length (concat acc) + (\<Sum>idx\<leftarrow>idxs. length (filter (\<lambda>(b, i). b = idx) invs))"
proof (induction idxs arbitrary: acc)
  case Nil
  then show ?case by simp
next
  case (Cons idx rest)
  from Cons.prems obtain m where m: "outputs_mapped inputs_C outputs invs idx = Inr m"
    and loop: "scene_loop inputs_C outputs invs rest (acc @ [m]) = Inr res"
    by (auto split: sum.splits)
  from Cons.IH [OF loop] outputs_mapped_length [OF m] show ?case by simp
qed

lemma length_filter_disjoint:
  "(\<And>x. \<not> (P x \<and> Q x)) \<Longrightarrow>
   length (filter (\<lambda>x. P x \<or> Q x) xs) = length (filter P xs) + length (filter Q xs)"
  by (induction xs) auto

lemma count_by_scene:
  "(\<Sum>idx\<leftarrow>map int [0..<n]. length (filter (\<lambda>(b, i). b = idx) invs)) =
   length (filter (\<lambda>(b, i). 0 \<le> b \<and> b < int n) (invs :: (int \<times> int) list))"
proof (induction n)
  case 0
  have "filter (\<lambda>(b, i). 0 \<le> b \<and> b < int 0) invs = []"
    by (induction invs) auto
  then show ?case by simp
next
  case (Suc n)
  have "filter (\<lambda>(b, i). 0 \<le> b \<and> b < int (Suc n)) invs =
        filter (\<lambda>x. (case x of (b, i) \<Rightarrow> 0 \<le> b \<and> b < int n) \<or> (case x of (b, i) \<Rightarrow> b = int n)) invs"
    by (rule filter_cong) auto
  then have "length (filter (\<lambda>(b, i). 0 \<le> b \<and> b < int (Suc n)) invs) =
        length (filter (\<lambda>(b, i). 0 \<le> b \<and> b < int n) invs) +
        length (filter (\<lambda>(b, i). b = int n) invs)"
    by (simp only: ) (rule length_filter_disjoint, auto)
  with Suc.IH show ?case by simp
qed

lemma map_predictions_length:
  assumes ok: "map_predictions inputs_C outputs invs = Inr mapped"
    and nonneg: "\<And>b i. (b, i) \<in> set invs \<Longrightarrow> 0 \<le> b"
  shows "length mapped = length invs"
proof -
  from ok obtain m res where tm: "tensor_max (map fst invs) = Inr m"
    and loop: "scene_loop inputs_C outputs invs (py_range (m + 1)) [] = Inr res"
    and cat: "torch_cat res = Inr mapped"
    unfolding map_predictions_def by (auto split: sum.splits)
  from tm have ne: "invs \<noteq> []" by (auto simp: tensor_max_def)
  with tm have m: "m = max_batch_index invs"
    using tensor_max_Max [of "map fst invs"] by (simp add: max_batch_index_def)
  from cat have "mapped = concat res" by (auto simp: torch_cat_def split: if_splits)
  with scene_loop_length [OF loop]
  have "length mapped = (\<Sum>idx\<leftarrow>map int [0..<nat (m + 1)]. length (filter (\<lambda>(b, i). b = idx) invs))"
    by (simp add: py_range_def)
  also have "\<dots> = length (filter (\<lambda>(b, i). 0 \<le> b \<and> b < int (nat (m + 1))) invs)"
    by (rule count_by_scene)
  also have "filter (\<lambda>(b, i). 0 \<le> b \<and> b < int (nat (m + 1))) invs = invs"
  proof -
    have "0 \<le> b \<and> b < int (nat (m + 1))" if "(b, i) \<in> set invs" for b i
      using nonneg [OF that] max_batch_index_ge [OF that] m by simp
    then show ?thesis by (intro filter_True) auto
  qed
  finally show ?thesis .
qed

text \<open>
  Claim C4. When a step of the evaluation writes its label file, and the batch indices of
  the inverse map are not negative, the file has four bytes for each entry of the inverse
  map, that is for each point of the original cloud.
\<close>

theorem label_file_byte_count:
  assumes "eval_step save_dir fd outputs = Inr (path, bytes)"
    and "list_all (\<lambda>(b, i). 0 \<le> b) (inverse_map fd)"
  shows "length bytes = 4 * length (inverse_map fd)"
proof -
  from assms(1) obtain mapped where ok: "map_predictions (lidar_C fd) outputs (inverse_map fd) = Inr mapped"
    and bytes: "bytes = tofile_bytes (pred_eval mapped)"
    unfolding eval_step_def by (auto split: sum.splits)
  from assms(2) have "0 \<le> b" if "(b, i) \<in> set (inverse_map fd)" for b i
    using that unfolding list_all_iff by auto
  with ok have "length mapped = length (inverse_map fd)" by (rule map_predictions_length)
  with bytes show ?thesis by (simp add: length_tofile_bytes length_pred_eval)
qed

lemma step_example:
  "eval_step ''out''
     \<lparr>lidar_C = [0, 0], inverse_map = [(0, 1), (0, 0), (0, 1)],
      file_name = [''/data/sequences/08/velodyne/000123.bin'']\<rparr>
     [[1, 5, 2], [7, 0, 0 :: int]] =
   Inr (''out/08/000123.label'', [0, 0, 0, 0, 1, 0, 0, 0, 0, 0, 0, 0])"
  by code_simp

theorem label_file_byte_count_witness:
  "eval_step ''out''
     \<lparr>lidar_C = [0, 0], inverse_map = [(0, 1), (0, 0), (0, 1)],
      file_name = [''/data/sequences/08/velodyne/000123.bin'']\<rparr>
     [[1, 5, 2], [7, 0, 0 :: int]] =
   Inr (''out/08/000123.label'', [0, 0, 0, 0, 1, 0, 0, 0, 0, 0, 0, 0]) \<and>
   list_all (\<lambda>(b, i). 0 \<le> b) [(0, 1), (0, 0), (0 :: int, 1 :: int)] \<and>
   length [0, 0, 0, 0, 1, 0, 0, 0, 0, 0, 0, 0 :: byte] = 4 * length [(0, 1), (0, 0), (0 :: int, 1 :: int)]"
proof -
  have nn: "list_all (\<lambda>(b, i). 0 \<le> b)
     (inverse_map \<lparr>lidar_C = [0, 0], inverse_map = [(0, 1), (0, 0), (0, 1)],
      file_name = [''/data/sequences/08/velodyne/000123.bin'']\<rparr>)" by simp
  from label_file_byte_count [OF step_example nn] step_example show ?thesis by simp
qed

end
